theory Spec2Isabelle
  imports Main "HOL-Library.Word"
begin

section \<open>Shared types\<close>

text \<open>
  The asynchronous database layer of \<^verbatim>\<open>src/shared/Database\<close>:
  \<^verbatim>\<open>SqlOperations.cpp\<close> and \<^verbatim>\<open>SqlDelayThread.cpp\<close>.
  A \<^verbatim>\<open>QueryResult\<close> is what the driver hands back for a query; here it is
  the list of its rows. A null \<^verbatim>\<open>unique_ptr\<close> or a null \<^verbatim>\<open>char const*\<close>
  is \<open>None\<close>. \<^verbatim>\<open>uint32\<close> is a 32-bit word, \<^verbatim>\<open>size_t\<close> an index into a
  vector and hence a natural number.
\<close>

type_synonym u32 = "32 word"
type_synonym QueryResult = "string list list"
type_synonym SqlStmtParameters = "string list"

section \<open>SqlQueryHolder\<close>

text \<open>
  \<^verbatim>\<open>typedef std::pair<const char*, std::unique_ptr<QueryResult>> SqlResultPair\<close>;
  the holder owns \<^verbatim>\<open>std::vector<SqlResultPair> m_queries\<close>. The calls to
  \<^verbatim>\<open>sLog.Out\<close> and to \<^verbatim>\<open>delete []\<close> are returned as a list of effects,
  in the order the code performs them.
\<close>

type_synonym SqlResultPair = "string option \<times> QueryResult option"

record SqlQueryHolder =
  m_queries :: "SqlResultPair list"

datatype holder_effect =
    LogIndexOutOfRange nat nat string
  | LogSlotOccupied nat string string
  | LogFormatEmpty nat
  | LogTruncated string
  | DeleteText string

text \<open>\<^verbatim>\<open>bool SqlQueryHolder::SetQuery(size_t index, char const* sql)\<close>\<close>

definition SetQuery ::
  "SqlQueryHolder \<Rightarrow> nat \<Rightarrow> string \<Rightarrow> bool \<times> SqlQueryHolder \<times> holder_effect list" where
  "SetQuery h index sql =
     (if length (m_queries h) \<le> index then
        (False, h, [LogIndexOutOfRange index (length (m_queries h)) sql])
      else
        (case fst (m_queries h ! index) of
           Some old \<Rightarrow> (False, h, [LogSlotOccupied index old sql])
         | None \<Rightarrow>
             (True, h\<lparr>m_queries := (m_queries h)[index := (Some sql, None)]\<rparr>, [])))"




text \<open>
  \<^verbatim>\<open>std::unique_ptr<QueryResult> SqlQueryHolder::TakeResult(size_t index)\<close>:
  the stored text is deleted and its pointer nulled, and the result is moved out of the
  slot, which leaves the slot's \<^verbatim>\<open>unique_ptr\<close> null.
\<close>

definition TakeResult ::
  "SqlQueryHolder \<Rightarrow> nat \<Rightarrow> QueryResult option \<times> SqlQueryHolder \<times> holder_effect list" where
  "TakeResult h index =
     (if index < length (m_queries h) then
        (snd (m_queries h ! index),
         h\<lparr>m_queries := (m_queries h)[index := (None, None)]\<rparr>,
         (case fst (m_queries h ! index) of None \<Rightarrow> [] | Some sql \<Rightarrow> [DeleteText sql]))
      else (None, h, []))"

text \<open>\<^verbatim>\<open>void SqlQueryHolder::SetResult(size_t index, std::unique_ptr<QueryResult> result)\<close>\<close>

definition SetResult :: "SqlQueryHolder \<Rightarrow> nat \<Rightarrow> QueryResult option \<Rightarrow> SqlQueryHolder" where
  "SetResult h index result =
     (if index < length (m_queries h) then
        h\<lparr>m_queries := (m_queries h)[index := (fst (m_queries h ! index), result)]\<rparr>
      else h)"

text \<open>\<^verbatim>\<open>void SqlQueryHolder::SetSize(size_t size)\<close>: \<^verbatim>\<open>resize\<close> keeps the first
  \<open>size\<close> slots and fills up with empty ones.\<close>

definition SetSize :: "SqlQueryHolder \<Rightarrow> nat \<Rightarrow> SqlQueryHolder" where
  "SetSize h n =
     h\<lparr>m_queries := take n (m_queries h) @ replicate (n - length (m_queries h)) (None, None)\<rparr>"

section \<open>Callbacks and SqlResultQueue\<close>

text \<open>
  A \<^verbatim>\<open>MaNGOS::IQueryCallback\<close> object: \<open>cb_id\<close> stands for the object's
  identity, \<open>cb_IsThreadSafe\<close> for what its \<^verbatim>\<open>IsThreadSafe()\<close> answers and
  \<open>cb_result\<close> for the result that \<^verbatim>\<open>SetResult\<close> stored. A callback has one
  owner at a time (the operation, then the queue, then whoever runs it), so it is
  passed by value.
\<close>

record IQueryCallback =
  cb_id :: nat
  cb_IsThreadSafe :: bool
  cb_result :: "QueryResult option"

definition cb_SetResult :: "IQueryCallback \<Rightarrow> QueryResult option \<Rightarrow> IQueryCallback" where
  "cb_SetResult cb r = cb\<lparr>cb_result := r\<rparr>"

text \<open>
  The pool \<^verbatim>\<open>m_callbackThreads\<close>: \<^verbatim>\<open>operator<<\<close> appends a task to the
  workload, \<^verbatim>\<open>processWorkload()\<close> hands the workload to the pool's threads and
  returns the future of that batch, and waiting for the future ends when the batch has
  run. Every task of this file executes one callback and deletes it, so a task is the
  callback. What the pool's threads do to the world while the calling thread goes on is
  not part of this model: the pool only records which callbacks it was given and which
  batches were waited for.
\<close>

record ThreadPool =
  pool_workload :: "IQueryCallback list"
  pool_finished :: "IQueryCallback list"

definition pool_submit :: "ThreadPool \<Rightarrow> IQueryCallback \<Rightarrow> ThreadPool" where
  "pool_submit p cb = p\<lparr>pool_workload := pool_workload p @ [cb]\<rparr>"

definition processWorkload :: "ThreadPool \<Rightarrow> ThreadPool \<times> IQueryCallback list" where
  "processWorkload p = (p\<lparr>pool_workload := []\<rparr>, pool_workload p)"

definition job_wait :: "ThreadPool \<Rightarrow> IQueryCallback list \<Rightarrow> ThreadPool" where
  "job_wait p job = p\<lparr>pool_finished := pool_finished p @ job\<rparr>"

text \<open>
  \<^verbatim>\<open>SqlResultQueue\<close> is a locked queue of callbacks (its base class, here the
  field \<open>inbound\<close>: \<^verbatim>\<open>add\<close> appends, \<^verbatim>\<open>next\<close> takes the front element and
  answers false on an empty queue) with the second queue
  \<^verbatim>\<open>_threadUnsafeWaitingQueries\<close>, the counter \<^verbatim>\<open>numUnsafeQueries\<close> and
  the pool.
\<close>

record SqlResultQueue =
  inbound :: "IQueryCallback list"
  threadUnsafeWaitingQueries :: "IQueryCallback list"
  numUnsafeQueries :: u32
  m_callbackThreads :: ThreadPool

definition queue_add :: "SqlResultQueue \<Rightarrow> IQueryCallback \<Rightarrow> SqlResultQueue" where
  "queue_add q cb = q\<lparr>inbound := inbound q @ [cb]\<rparr>"

text \<open>
  What the thread that calls \<^verbatim>\<open>Update\<close> or \<^verbatim>\<open>CancelAll\<close> does to
  callbacks, and what it logs, in the order it happens.
\<close>

datatype owner_event =
    CbSetResult nat "QueryResult option"
  | CbExecute IQueryCallback
  | CbDelete nat
  | LogUnsafeRemaining u32

text \<open>
  \<^verbatim>\<open>WorldTimer\<close> is declared outside these sources: the clock is read off the
  state \<open>'w\<close> of the calling thread's world by the two functions the code calls.
\<close>

record 'w WorldTimer =
  getMSTime :: "'w \<Rightarrow> u32"
  getMSTimeDiffToNow :: "u32 \<Rightarrow> 'w \<Rightarrow> u32"

text \<open>
  The first loop of \<^verbatim>\<open>SqlResultQueue::Update\<close>, over the callbacks that
  \<^verbatim>\<open>next(callback)\<close> yields.
\<close>

fun Update_collect :: "IQueryCallback list \<Rightarrow> SqlResultQueue \<Rightarrow> SqlResultQueue" where
  "Update_collect [] q = q\<lparr>inbound := []\<rparr>"
| "Update_collect (callback # rest) q =
     (if \<not> cb_IsThreadSafe callback then
        Update_collect rest
          (q\<lparr>threadUnsafeWaitingQueries := threadUnsafeWaitingQueries q @ [callback],
             numUnsafeQueries := numUnsafeQueries q + 1\<rparr>)
      else
        Update_collect rest
          (q\<lparr>m_callbackThreads := pool_submit (m_callbackThreads q) callback\<rparr>))"

text \<open>
  The second loop, over \<^verbatim>\<open>_threadUnsafeWaitingQueries.next(s)\<close>. The virtual
  \<^verbatim>\<open>IQueryCallback::Execute\<close> is the parameter \<open>Execute\<close>: what running the
  callback does to the world. The result is the rest of the queue, the counter, the
  world and the events.
\<close>

fun Update_drain ::
  "'w WorldTimer \<Rightarrow> (IQueryCallback \<Rightarrow> 'w \<Rightarrow> 'w) \<Rightarrow> u32 \<Rightarrow> u32 \<Rightarrow> IQueryCallback list \<Rightarrow> u32 \<Rightarrow> 'w
     \<Rightarrow> IQueryCallback list \<times> u32 \<times> 'w \<times> owner_event list" where
  "Update_drain T Execute timeout begin [] num w = ([], num, w, [])"
| "Update_drain T Execute timeout begin (s # rest) num w =
     (let w1 = Execute s w;
          num1 = num - 1
      in if timeout \<noteq> 0 \<and> getMSTimeDiffToNow T begin w1 > timeout then
           (rest, num1, w1, [CbExecute s, CbDelete (cb_id s)])
         else
           (let (rest', num', w', evs) = Update_drain T Execute timeout begin rest num1 w1
            in (rest', num', w', [CbExecute s, CbDelete (cb_id s)] @ evs)))"

text \<open>
  \<^verbatim>\<open>void SqlResultQueue::Update(uint32 timeout)\<close>. The unused counter \<^verbatim>\<open>n\<close> of
  the first loop is left out. No other thread adds to the inbound queue while the call
  runs, and time passes only in what \<open>Execute\<close> does to the world.
\<close>

definition Update ::
  "'w WorldTimer \<Rightarrow> (IQueryCallback \<Rightarrow> 'w \<Rightarrow> 'w) \<Rightarrow> u32 \<Rightarrow> SqlResultQueue \<Rightarrow> 'w
     \<Rightarrow> SqlResultQueue \<times> 'w \<times> owner_event list" where
  "Update T Execute timeout q w =
     (let begin = getMSTime T w;
          q1 = Update_collect (inbound q) q;
          (pool, job) = processWorkload (m_callbackThreads q1);
          (rest, num, w', evs) =
             Update_drain T Execute timeout begin (threadUnsafeWaitingQueries q1)
               (numUnsafeQueries q1) w;
          logged = (if num > 1000 then [LogUnsafeRemaining num] else [])
      in (q1\<lparr>threadUnsafeWaitingQueries := rest, numUnsafeQueries := num,
             m_callbackThreads := job_wait pool job\<rparr>,
          w', evs @ logged))"

text \<open>The loop of \<^verbatim>\<open>void SqlResultQueue::CancelAll()\<close>, and the function.\<close>

fun CancelAll_loop ::
  "(IQueryCallback \<Rightarrow> 'w \<Rightarrow> 'w) \<Rightarrow> IQueryCallback list \<Rightarrow> 'w \<Rightarrow> 'w \<times> owner_event list" where
  "CancelAll_loop Execute [] w = (w, [])"
| "CancelAll_loop Execute (cb # rest) w =
     (let cb1 = cb_SetResult cb None;
          w1 = Execute cb1 w;
          (w', evs) = CancelAll_loop Execute rest w1
      in (w', [CbSetResult (cb_id cb) None, CbExecute cb1, CbDelete (cb_id cb)] @ evs))"

definition CancelAll ::
  "(IQueryCallback \<Rightarrow> 'w \<Rightarrow> 'w) \<Rightarrow> SqlResultQueue \<Rightarrow> 'w \<Rightarrow> SqlResultQueue \<times> 'w \<times> owner_event list" where
  "CancelAll Execute q w =
     (let (w', evs) = CancelAll_loop Execute (inbound q) w
      in (q\<lparr>inbound := []\<rparr>, w', evs))"

section \<open>The connection\<close>

text \<open>
  \<^verbatim>\<open>SqlConnection\<close> is an abstract class declared outside these sources. Its
  virtual functions are the fields of \<open>SqlDriver\<close>, each a function of the driver's
  state \<open>'s\<close>; a query answers a result or null. The calls made on the connection are
  recorded in \<open>conn_calls\<close>, the guard \<^verbatim>\<open>SqlConnection::Lock\<close> of the macro
  \<^verbatim>\<open>LOCK_DB_CONN\<close> as \<open>ConnLock\<close> where it is constructed and \<open>ConnUnlock\<close>
  where its scope is left.

  Operations reach result queues and holders through pointers:
  \<open>result_queues\<close> and \<open>holders\<close> map an address to the object stored there.
\<close>

datatype conn_event =
    ConnLock
  | ConnUnlock
  | ConnExecute string
  | ConnExecuteStmt int SqlStmtParameters
  | ConnQuery string
  | ConnBeginTransaction
  | ConnCommitTransaction
  | ConnRollbackTransaction

record 's SqlDriver =
  drvExecute :: "string \<Rightarrow> 's \<Rightarrow> bool \<times> 's"
  drvExecuteStmt :: "int \<Rightarrow> SqlStmtParameters \<Rightarrow> 's \<Rightarrow> bool \<times> 's"
  drvQuery :: "string \<Rightarrow> 's \<Rightarrow> QueryResult option \<times> 's"
  drvBeginTransaction :: "'s \<Rightarrow> 's"
  drvCommitTransaction :: "'s \<Rightarrow> bool \<times> 's"
  drvRollbackTransaction :: "'s \<Rightarrow> 's"

record 's db =
  conn_state :: 's
  conn_calls :: "conn_event list"
  result_queues :: "nat \<Rightarrow> SqlResultQueue"
  holders :: "nat \<Rightarrow> SqlQueryHolder"

definition called :: "conn_event \<Rightarrow> 's db \<Rightarrow> 's db" where
  "called e st = st\<lparr>conn_calls := conn_calls st @ [e]\<rparr>"

definition LOCK_DB_CONN :: "'s db \<Rightarrow> 's db" where
  "LOCK_DB_CONN st = called ConnLock st"

definition guard_release :: "'s db \<Rightarrow> 's db" where
  "guard_release st = called ConnUnlock st"

definition conn_Execute :: "'s SqlDriver \<Rightarrow> string \<Rightarrow> 's db \<Rightarrow> bool \<times> 's db" where
  "conn_Execute D sql st =
     (let (r, s') = drvExecute D sql (conn_state st)
      in (r, called (ConnExecute sql) (st\<lparr>conn_state := s'\<rparr>)))"

definition conn_ExecuteStmt ::
  "'s SqlDriver \<Rightarrow> int \<Rightarrow> SqlStmtParameters \<Rightarrow> 's db \<Rightarrow> bool \<times> 's db" where
  "conn_ExecuteStmt D nIndex param st =
     (let (r, s') = drvExecuteStmt D nIndex param (conn_state st)
      in (r, called (ConnExecuteStmt nIndex param) (st\<lparr>conn_state := s'\<rparr>)))"

definition conn_Query :: "'s SqlDriver \<Rightarrow> string \<Rightarrow> 's db \<Rightarrow> QueryResult option \<times> 's db" where
  "conn_Query D sql st =
     (let (r, s') = drvQuery D sql (conn_state st)
      in (r, called (ConnQuery sql) (st\<lparr>conn_state := s'\<rparr>)))"

definition BeginTransaction :: "'s SqlDriver \<Rightarrow> 's db \<Rightarrow> 's db" where
  "BeginTransaction D st =
     called ConnBeginTransaction (st\<lparr>conn_state := drvBeginTransaction D (conn_state st)\<rparr>)"

definition CommitTransaction :: "'s SqlDriver \<Rightarrow> 's db \<Rightarrow> bool \<times> 's db" where
  "CommitTransaction D st =
     (let (r, s') = drvCommitTransaction D (conn_state st)
      in (r, called ConnCommitTransaction (st\<lparr>conn_state := s'\<rparr>)))"

definition RollbackTransaction :: "'s SqlDriver \<Rightarrow> 's db \<Rightarrow> 's db" where
  "RollbackTransaction D st =
     called ConnRollbackTransaction (st\<lparr>conn_state := drvRollbackTransaction D (conn_state st)\<rparr>)"

section \<open>Operations\<close>

text \<open>
  The classes derived from \<^verbatim>\<open>SqlOperation\<close>, each with the members its
  \<^verbatim>\<open>Execute\<close> reads. A callback is owned, a result queue and a holder are pointed
  to (\<open>None\<close> is the null pointer).
\<close>

datatype SqlOperation =
    SqlPlainRequest string
  | SqlTransaction "SqlOperation list"
  | SqlPreparedRequest int SqlStmtParameters
  | SqlQuery string "IQueryCallback option" "nat option"
  | SqlQueryHolderEx "nat option" "IQueryCallback option" "nat option"

text \<open>\<^verbatim>\<open>bool SqlPlainRequest::Execute(SqlConnection* conn)\<close>\<close>

definition SqlPlainRequest_Execute :: "'s SqlDriver \<Rightarrow> string \<Rightarrow> 's db \<Rightarrow> bool \<times> 's db" where
  "SqlPlainRequest_Execute D m_sql st =
     (let st1 = LOCK_DB_CONN st;
          (r, st2) = conn_Execute D m_sql st1
      in (r, guard_release st2))"

text \<open>\<^verbatim>\<open>bool SqlPreparedRequest::Execute(SqlConnection* conn)\<close>\<close>

definition SqlPreparedRequest_Execute ::
  "'s SqlDriver \<Rightarrow> int \<Rightarrow> SqlStmtParameters \<Rightarrow> 's db \<Rightarrow> bool \<times> 's db" where
  "SqlPreparedRequest_Execute D m_nIndex m_param st =
     (let st1 = LOCK_DB_CONN st;
          (r, st2) = conn_ExecuteStmt D m_nIndex m_param st1
      in (r, guard_release st2))"

text \<open>\<^verbatim>\<open>bool SqlQuery::Execute(SqlConnection* conn)\<close>\<close>

definition SqlQuery_Execute ::
  "'s SqlDriver \<Rightarrow> string \<Rightarrow> IQueryCallback option \<Rightarrow> nat option \<Rightarrow> 's db \<Rightarrow> bool \<times> 's db" where
  "SqlQuery_Execute D m_sql m_callback m_queue st =
     (case m_callback of
        None \<Rightarrow> (False, st)
      | Some cb \<Rightarrow>
          (case m_queue of
             None \<Rightarrow> (False, st)
           | Some q \<Rightarrow>
               (let st1 = LOCK_DB_CONN st;
                    (result, st2) = conn_Query D m_sql st1;
                    cb1 = cb_SetResult cb result;
                    st3 = st2\<lparr>result_queues := (result_queues st2)(q := queue_add (result_queues st2 q) cb1)\<rparr>
                in (True, guard_release st3))))"

text \<open>
  The body of the loop of \<^verbatim>\<open>SqlQueryHolderEx::Execute\<close> at index \<open>i\<close>, for the
  holder at address \<open>h\<close>, and the function. \<^verbatim>\<open>SetResult\<close> leaves the size of
  \<^verbatim>\<open>queries\<close> as it is, so the loop runs over the indices below the size it finds.
\<close>

definition holder_slot_step :: "'s SqlDriver \<Rightarrow> nat \<Rightarrow> nat \<Rightarrow> 's db \<Rightarrow> 's db" where
  "holder_slot_step D h i st =
     (case fst (m_queries (holders st h) ! i) of
        None \<Rightarrow> st
      | Some sql \<Rightarrow>
          (let (result, st1) = conn_Query D sql st
           in st1\<lparr>holders := (holders st1)(h := SetResult (holders st1 h) i result)\<rparr>))"

definition SqlQueryHolderEx_Execute ::
  "'s SqlDriver \<Rightarrow> nat option \<Rightarrow> IQueryCallback option \<Rightarrow> nat option \<Rightarrow> 's db \<Rightarrow> bool \<times> 's db" where
  "SqlQueryHolderEx_Execute D m_holder m_callback m_queue st =
     (case m_holder of
        None \<Rightarrow> (False, st)
      | Some h \<Rightarrow>
          (case m_callback of
             None \<Rightarrow> (False, st)
           | Some cb \<Rightarrow>
               (case m_queue of
                  None \<Rightarrow> (False, st)
                | Some q \<Rightarrow>
                    (let st1 = LOCK_DB_CONN st;
                         st2 = fold (holder_slot_step D h) [0 ..< length (m_queries (holders st1 h))] st1;
                         st3 = st2\<lparr>result_queues := (result_queues st2)(q := queue_add (result_queues st2 q) cb)\<rparr>
                     in (True, guard_release st3)))))"

text \<open>
  The virtual \<^verbatim>\<open>SqlOperation::Execute\<close>, with
  \<^verbatim>\<open>bool SqlTransaction::Execute(SqlConnection* conn)\<close>, whose members are
  operations themselves: \<open>SqlTransaction_loop\<close> is its \<^verbatim>\<open>for\<close> loop, which
  answers false where a member failed (the caller then rolls back and returns) and true
  where it ran to its end.
\<close>

fun Execute :: "'s SqlDriver \<Rightarrow> SqlOperation \<Rightarrow> 's db \<Rightarrow> bool \<times> 's db"
  and SqlTransaction_loop :: "'s SqlDriver \<Rightarrow> SqlOperation list \<Rightarrow> 's db \<Rightarrow> bool \<times> 's db" where
  "Execute D (SqlPlainRequest m_sql) st = SqlPlainRequest_Execute D m_sql st"
| "Execute D (SqlPreparedRequest m_nIndex m_param) st =
     SqlPreparedRequest_Execute D m_nIndex m_param st"
| "Execute D (SqlQuery m_sql m_callback m_queue) st =
     SqlQuery_Execute D m_sql m_callback m_queue st"
| "Execute D (SqlQueryHolderEx m_holder m_callback m_queue) st =
     SqlQueryHolderEx_Execute D m_holder m_callback m_queue st"
| "Execute D (SqlTransaction m_queue) st =
     (if m_queue = [] then (True, st)
      else
        (let st1 = LOCK_DB_CONN st;
             st2 = BeginTransaction D st1;
             (completed, st3) = SqlTransaction_loop D m_queue st2
         in if \<not> completed then (False, guard_release (RollbackTransaction D st3))
            else
              (let (r, st4) = CommitTransaction D st3
               in (r, guard_release st4))))"
| "SqlTransaction_loop D [] st = (True, st)"
| "SqlTransaction_loop D (pStmt # rest) st =
     (let (ok, st1) = Execute D pStmt st
      in if \<not> ok then (False, st1) else SqlTransaction_loop D rest st1)"

section \<open>SqlDelayThread\<close>

text \<open>
  The worker. \<^verbatim>\<open>Database\<close> is declared outside these sources: of the engine the
  worker uses the queue behind \<^verbatim>\<open>NextDelayedOperation\<close>, the value of
  \<^verbatim>\<open>GetPingIntervall()\<close> and \<^verbatim>\<open>Ping()\<close>, which is recorded as an event. The
  queues are locked queues, as above. What the worker does with operations, besides the
  calls on its connection, is returned as a list of events.
\<close>

record Database =
  m_delayQueue :: "SqlOperation list"
  m_pingIntervallms :: u32

record SqlDelayThread =
  m_dbEngine :: Database
  m_serialDelayQueue :: "SqlOperation list"
  m_running :: bool

datatype worker_event =
    OpExecute SqlOperation bool
  | OpDelete SqlOperation
  | Sleep nat
  | EnginePing
  | DeleteConnection

definition addSerialOperation :: "SqlDelayThread \<Rightarrow> SqlOperation \<Rightarrow> SqlDelayThread" where
  "addSerialOperation t op = t\<lparr>m_serialDelayQueue := m_serialDelayQueue t @ [op]\<rparr>"

definition Stop :: "SqlDelayThread \<Rightarrow> SqlDelayThread" where
  "Stop t = t\<lparr>m_running := False\<rparr>"

text \<open>
  Either loop of \<^verbatim>\<open>ProcessRequests\<close>, over the operations its queue yields. No
  \<^verbatim>\<open>Execute\<close> of this file adds an operation to a queue, and no other thread does
  while the loop runs.
\<close>

fun ProcessRequests_loop ::
  "'s SqlDriver \<Rightarrow> SqlOperation list \<Rightarrow> 's db \<Rightarrow> 's db \<times> worker_event list" where
  "ProcessRequests_loop D [] st = (st, [])"
| "ProcessRequests_loop D (s # rest) st =
     (let (r, st1) = Execute D s st;
          (st', evs) = ProcessRequests_loop D rest st1
      in (st', [OpExecute s r, OpDelete s] @ evs))"

text \<open>\<^verbatim>\<open>void SqlDelayThread::ProcessRequests()\<close>\<close>

definition ProcessRequests ::
  "'s SqlDriver \<Rightarrow> SqlDelayThread \<Rightarrow> 's db \<Rightarrow> SqlDelayThread \<times> 's db \<times> worker_event list" where
  "ProcessRequests D t st =
     (let (st1, evs1) = ProcessRequests_loop D (m_delayQueue (m_dbEngine t)) st;
          t1 = t\<lparr>m_dbEngine := (m_dbEngine t)\<lparr>m_delayQueue := []\<rparr>\<rparr>;
          (st2, evs2) = ProcessRequests_loop D (m_serialDelayQueue t1) st1;
          t2 = t1\<lparr>m_serialDelayQueue := []\<rparr>
      in (t2, st2, evs1 @ evs2))"

text \<open>\<^verbatim>\<open>SqlDelayThread::~SqlDelayThread()\<close>\<close>

definition SqlDelayThread_destructor ::
  "'s SqlDriver \<Rightarrow> SqlDelayThread \<Rightarrow> 's db \<Rightarrow> SqlDelayThread \<times> 's db \<times> worker_event list" where
  "SqlDelayThread_destructor D t st =
     (let (t1, st1, evs) = ProcessRequests D t st
      in (t1, st1, evs @ [DeleteConnection]))"

text \<open>
  One pass through the body of the \<^verbatim>\<open>while (m_running)\<close> loop of
  \<^verbatim>\<open>SqlDelayThread::run()\<close>, with the local \<^verbatim>\<open>loopCounter\<close> beside the
  thread's state. \<^verbatim>\<open>(loopCounter++) >= pingEveryLoop\<close> compares the value the
  counter had and then increments it.
\<close>

definition loopSleepms :: u32 where
  "loopSleepms = 10"

definition pingEveryLoop :: "SqlDelayThread \<Rightarrow> u32" where
  "pingEveryLoop t = m_pingIntervallms (m_dbEngine t) div loopSleepms"

definition run_body ::
  "'s SqlDriver \<Rightarrow> SqlDelayThread \<Rightarrow> 's db \<Rightarrow> u32
     \<Rightarrow> SqlDelayThread \<times> 's db \<times> u32 \<times> worker_event list" where
  "run_body D t st loopCounter =
     (let (t1, st1, evs) = ProcessRequests D t st;
          reached = (loopCounter \<ge> pingEveryLoop t);
          loopCounter1 = loopCounter + 1
      in if reached then
           (t1, snd (conn_Query D ''SELECT 1'' st1), 0,
            [Sleep (unat loopSleepms)] @ evs @ [EnginePing])
         else (t1, st1, loopCounter1, [Sleep (unat loopSleepms)] @ evs))"

text \<open>
  The loop of \<^verbatim>\<open>run()\<close>. \<^verbatim>\<open>m_running\<close> is cleared by \<^verbatim>\<open>Stop()\<close> on
  another thread, so how often the loop finds it set is given from outside: \<open>n\<close> passes
  are made before the flag is found cleared.
\<close>

fun run_loop ::
  "'s SqlDriver \<Rightarrow> nat \<Rightarrow> SqlDelayThread \<Rightarrow> 's db \<Rightarrow> u32
     \<Rightarrow> SqlDelayThread \<times> 's db \<times> u32 \<times> worker_event list" where
  "run_loop D 0 t st loopCounter = (Stop t, st, loopCounter, [])"
| "run_loop D (Suc n) t st loopCounter =
     (let (t1, st1, loopCounter1, evs1) = run_body D t st loopCounter;
          (t2, st2, loopCounter2, evs2) = run_loop D n t1 st1 loopCounter1
      in (t2, st2, loopCounter2, evs1 @ evs2))"

definition run ::
  "'s SqlDriver \<Rightarrow> nat \<Rightarrow> SqlDelayThread \<Rightarrow> 's db \<Rightarrow> SqlDelayThread \<times> 's db \<times> worker_event list" where
  "run D n t st =
     (let (t', st', loopCounter, evs) = run_loop D n t st 0
      in (t', st', evs))"

section \<open>What a run of the result queue shows\<close>

text \<open>
  \<open>executed\<close> lists the callbacks that ran, in order; \<open>delivery\<close> is what
  \<^verbatim>\<open>Update\<close> does with one thread-unsafe callback, \<open>cancelled_delivery\<close> what
  \<^verbatim>\<open>CancelAll\<close> does with one callback; \<open>unsafe_backlog\<close> is the queue of
  thread-unsafe callbacks once the first loop of \<^verbatim>\<open>Update\<close> has taken over the
  inbound queue. The constants \<open>ex_\<close>... are a small queue, a clock that is the
  world itself and callbacks that take five milliseconds each, for evaluation.
\<close>

fun executed :: "owner_event list \<Rightarrow> IQueryCallback list" where
  "executed [] = []"
| "executed (CbExecute cb # evs) = cb # executed evs"
| "executed (e # evs) = executed evs"

definition delivery :: "IQueryCallback \<Rightarrow> owner_event list" where
  "delivery s = [CbExecute s, CbDelete (cb_id s)]"

definition cancelled_delivery :: "IQueryCallback \<Rightarrow> owner_event list" where
  "cancelled_delivery cb =
     [CbSetResult (cb_id cb) None, CbExecute (cb\<lparr>cb_result := None\<rparr>), CbDelete (cb_id cb)]"

definition unsafe_backlog :: "SqlResultQueue \<Rightarrow> IQueryCallback list" where
  "unsafe_backlog q =
     threadUnsafeWaitingQueries q @ filter (\<lambda>c. \<not> cb_IsThreadSafe c) (inbound q)"

definition ex_cb :: "nat \<Rightarrow> bool \<Rightarrow> IQueryCallback" where
  "ex_cb i safe = \<lparr>cb_id = i, cb_IsThreadSafe = safe, cb_result = Some [[''row'']]\<rparr>"

definition ex_queue :: SqlResultQueue where
  "ex_queue =
     \<lparr>inbound = [ex_cb 2 False, ex_cb 9 True, ex_cb 3 False],
      threadUnsafeWaitingQueries = [ex_cb 1 False],
      numUnsafeQueries = 1,
      m_callbackThreads = \<lparr>pool_workload = [], pool_finished = []\<rparr>\<rparr>"

definition ex_timer :: "u32 WorldTimer" where
  "ex_timer = \<lparr>getMSTime = (\<lambda>w. w), getMSTimeDiffToNow = (\<lambda>b w. w - b)\<rparr>"

definition ex_Execute :: "IQueryCallback \<Rightarrow> u32 \<Rightarrow> u32" where
  "ex_Execute cb w = w + 5"

definition ex_late_timer :: "u32 WorldTimer" where
  "ex_late_timer = \<lparr>getMSTime = (\<lambda>w. w), getMSTimeDiffToNow = (\<lambda>b w. 5000)\<rparr>"

section \<open>What a run of the worker shows\<close>

text \<open>
  \<open>run_members\<close> runs the given operations one after the other, whatever they
  answer. \<open>handled\<close> is what the worker does with one operation; \<open>executed_ops\<close> and
  \<open>deleted_ops\<close> list the operations that were executed and that were deleted, in
  order. The constants \<open>ex_\<close>... are a driver that counts its calls and refuses the
  statement \<^verbatim>\<open>BAD\<close>, an empty database state and a worker with three requests.
\<close>

definition run_members :: "'s SqlDriver \<Rightarrow> SqlOperation list \<Rightarrow> 's db \<Rightarrow> 's db" where
  "run_members D ms st = fold (\<lambda>m s. snd (Execute D m s)) ms st"

definition handled :: "SqlOperation \<Rightarrow> bool \<Rightarrow> worker_event list" where
  "handled s r = [OpExecute s r, OpDelete s]"

fun executed_ops :: "worker_event list \<Rightarrow> SqlOperation list" where
  "executed_ops [] = []"
| "executed_ops (OpExecute s r # evs) = s # executed_ops evs"
| "executed_ops (e # evs) = executed_ops evs"

fun deleted_ops :: "worker_event list \<Rightarrow> SqlOperation list" where
  "deleted_ops [] = []"
| "deleted_ops (OpDelete s # evs) = s # deleted_ops evs"
| "deleted_ops (e # evs) = deleted_ops evs"

definition ex_driver :: "nat SqlDriver" where
  "ex_driver =
     \<lparr>drvExecute = (\<lambda>sql s. (sql \<noteq> ''BAD'', Suc s)),
      drvExecuteStmt = (\<lambda>nIndex param s. (True, Suc s)),
      drvQuery = (\<lambda>sql s. (if sql = ''BAD'' then None else Some [[sql]], Suc s)),
      drvBeginTransaction = (\<lambda>s. s),
      drvCommitTransaction = (\<lambda>s. (True, s)),
      drvRollbackTransaction = (\<lambda>s. s)\<rparr>"

definition ex_db :: "nat db" where
  "ex_db =
     \<lparr>conn_state = 0, conn_calls = [],
      result_queues = (\<lambda>a. \<lparr>inbound = [], threadUnsafeWaitingQueries = [], numUnsafeQueries = 0,
         m_callbackThreads = \<lparr>pool_workload = [], pool_finished = []\<rparr>\<rparr>),
      holders = (\<lambda>a. \<lparr>m_queries = []\<rparr>)\<rparr>"

definition ex_thread :: SqlDelayThread where
  "ex_thread =
     \<lparr>m_dbEngine = \<lparr>m_delayQueue = [SqlPlainRequest ''A''], m_pingIntervallms = 30\<rparr>,
      m_serialDelayQueue = [SqlPlainRequest ''BAD'', SqlPlainRequest ''C''],
      m_running = False\<rparr>"

section \<open>What a run of a query holder shows\<close>






text \<open>\<open>pings\<close> counts the pings of the engine among the worker's events.\<close>

definition pings :: "worker_event list \<Rightarrow> nat" where
  "pings evs = length (filter (\<lambda>e. e = EnginePing) evs)"

section \<open>Properties of SqlQueryHolder\<close>

text \<open>
  Claim C7. \<^verbatim>\<open>SqlQueryHolder::SetQuery\<close> answers false and leaves the holder as it
  was when the index is out of range, and when the slot at the index already holds a
  text, which then is still the text stored before; it answers true exactly when the
  index is in range and the slot holds no text, and then the slot holds the new text.
\<close>

theorem SetQuery_guarded:
  "(length (m_queries h) \<le> index \<longrightarrow>
      fst (SetQuery h index sql) = False \<and> fst (snd (SetQuery h index sql)) = h) \<and>
   (index < length (m_queries h) \<and> fst (m_queries h ! index) = Some old \<longrightarrow>
      fst (SetQuery h index sql) = False \<and> fst (snd (SetQuery h index sql)) = h \<and>
      fst (m_queries (fst (snd (SetQuery h index sql))) ! index) = Some old) \<and>
   (index < length (m_queries h) \<and> fst (m_queries h ! index) = None \<longrightarrow>
      fst (SetQuery h index sql) = True \<and>
      m_queries (fst (snd (SetQuery h index sql))) = (m_queries h)[index := (Some sql, None)] \<and>
      fst (m_queries (fst (snd (SetQuery h index sql))) ! index) = Some sql) \<and>
   (fst (SetQuery h index sql) = True \<longleftrightarrow>
      index < length (m_queries h) \<and> fst (m_queries h ! index) = None)"
  by (auto simp: SetQuery_def split: option.splits)

theorem SetQuery_guarded_witness:
  "fst (SetQuery \<lparr>m_queries = [(Some ''SELECT 1'', None), (None, None)]\<rparr> 2 ''SELECT 2'') = False \<and>
   fst (snd (SetQuery \<lparr>m_queries = [(Some ''SELECT 1'', None), (None, None)]\<rparr> 2 ''SELECT 2''))
     = \<lparr>m_queries = [(Some ''SELECT 1'', None), (None, None)]\<rparr> \<and>
   fst (SetQuery \<lparr>m_queries = [(Some ''SELECT 1'', None), (None, None)]\<rparr> 0 ''SELECT 2'') = False \<and>
   fst (snd (SetQuery \<lparr>m_queries = [(Some ''SELECT 1'', None), (None, None)]\<rparr> 0 ''SELECT 2''))
     = \<lparr>m_queries = [(Some ''SELECT 1'', None), (None, None)]\<rparr> \<and>
   fst (SetQuery \<lparr>m_queries = [(Some ''SELECT 1'', None), (None, None)]\<rparr> 1 ''SELECT 2'') = True \<and>
   m_queries (fst (snd (SetQuery \<lparr>m_queries = [(Some ''SELECT 1'', None), (None, None)]\<rparr> 1 ''SELECT 2'')))
     = [(Some ''SELECT 1'', None), (Some ''SELECT 2'', None)]"
  using SetQuery_guarded [of "\<lparr>m_queries = [(Some ''SELECT 1'', None), (None, None)]\<rparr>" 2 "''SELECT 2''"]
        SetQuery_guarded [of "\<lparr>m_queries = [(Some ''SELECT 1'', None), (None, None)]\<rparr>" 0 "''SELECT 2''" "''SELECT 1''"]
        SetQuery_guarded [of "\<lparr>m_queries = [(Some ''SELECT 1'', None), (None, None)]\<rparr>" 1 "''SELECT 2''"]
  by simp



text \<open>
  Claim C8. \<^verbatim>\<open>SqlQueryHolder::TakeResult\<close> at an index in range answers the result
  stored in the slot and leaves the slot without result and without text, the text
  having been deleted once if there was one; taking the same slot again answers the
  empty result, changes nothing and deletes nothing. At an index out of range it
  answers the empty result and changes nothing.
\<close>

theorem TakeResult_once:
  "(index < length (m_queries h) \<longrightarrow>
      TakeResult h index =
        (snd (m_queries h ! index),
         h\<lparr>m_queries := (m_queries h)[index := (None, None)]\<rparr>,
         (case fst (m_queries h ! index) of None \<Rightarrow> [] | Some sql \<Rightarrow> [DeleteText sql])) \<and>
      TakeResult (fst (snd (TakeResult h index))) index =
        (None, fst (snd (TakeResult h index)), [])) \<and>
   (length (m_queries h) \<le> index \<longrightarrow> TakeResult h index = (None, h, []))"
  by (auto simp: TakeResult_def)

theorem TakeResult_once_witness:
  "TakeResult \<lparr>m_queries = [(Some ''SELECT 1'', Some [[''1'']])]\<rparr> 0
     = (Some [[''1'']], \<lparr>m_queries = [(None, None)]\<rparr>, [DeleteText ''SELECT 1'']) \<and>
   TakeResult \<lparr>m_queries = [(None, None)]\<rparr> 0 = (None, \<lparr>m_queries = [(None, None)]\<rparr>, []) \<and>
   TakeResult \<lparr>m_queries = [(Some ''SELECT 1'', Some [[''1'']])]\<rparr> 1
     = (None, \<lparr>m_queries = [(Some ''SELECT 1'', Some [[''1'']])]\<rparr>, [])"
  using TakeResult_once [of 0 "\<lparr>m_queries = [(Some ''SELECT 1'', Some [[''1'']])]\<rparr>"]
        TakeResult_once [of 1 "\<lparr>m_queries = [(Some ''SELECT 1'', Some [[''1'']])]\<rparr>"]
  by auto

section \<open>Properties of SqlResultQueue\<close>

lemma executed_append: "executed (xs @ ys) = executed xs @ executed ys"
  by (induction xs rule: executed.induct) auto

lemma executed_deliveries: "executed (concat (map delivery cs)) = cs"
  by (induction cs) (auto simp: delivery_def)

lemma executed_cancelled: "executed (concat (map cancelled_delivery cs)) = map (\<lambda>cb. cb\<lparr>cb_result := None\<rparr>) cs"
  by (induction cs) (auto simp: cancelled_delivery_def)

lemma collect_unsafe:
  "threadUnsafeWaitingQueries (Update_collect xs q) =
     threadUnsafeWaitingQueries q @ filter (\<lambda>c. \<not> cb_IsThreadSafe c) xs"
  by (induction xs arbitrary: q) auto

lemma collect_inbound: "inbound (Update_collect xs q) = []"
  by (induction xs arbitrary: q) auto

lemma collect_pool:
  "pool_workload (m_callbackThreads (Update_collect xs q)) =
     pool_workload (m_callbackThreads q) @ filter cb_IsThreadSafe xs"
  by (induction xs arbitrary: q) (auto simp: pool_submit_def)

lemma drain_shape:
  "Update_drain T X timeout b fifo num w = (rest, num', w', evs) \<Longrightarrow>
     evs = concat (map delivery (take (length fifo - length rest) fifo)) \<and>
     rest = drop (length fifo - length rest) fifo \<and>
     length rest \<le> length fifo \<and>
     w' = fold X (take (length fifo - length rest) fifo) w \<and>
     num' = num - of_nat (length fifo - length rest)"
proof (induction fifo arbitrary: num w rest num' w' evs)
  case Nil
  then show ?case by simp
next
  case (Cons s fifo)
  show ?case
  proof (cases "timeout \<noteq> 0 \<and> getMSTimeDiffToNow T b (X s w) > timeout")
    case True
    with Cons.prems show ?thesis by (auto simp: delivery_def)
  next
    case False
    obtain r n' v es where rec: "Update_drain T X timeout b fifo (num - 1) (X s w) = (r, n', v, es)"
      by (cases "Update_drain T X timeout b fifo (num - 1) (X s w)") auto
    from Cons.IH [OF rec] have ih:
      "es = concat (map delivery (take (length fifo - length r) fifo))"
      "r = drop (length fifo - length r) fifo" "length r \<le> length fifo"
      "v = fold X (take (length fifo - length r) fifo) (X s w)"
      "n' = num - 1 - of_nat (length fifo - length r)"
      by auto
    from Cons.prems False rec have eqs: "rest = r" "num' = n'" "w' = v" "evs = delivery s @ es"
      by (auto simp: delivery_def Let_def)
    have len: "length (s # fifo) - length r = Suc (length fifo - length r)"
      using ih(3) by simp
    show ?thesis
      unfolding eqs len using ih by (simp add: Suc_diff_le)
  qed
qed

lemma drain_zero:
  "Update_drain T X 0 b fifo num w = (rest, num', w', evs) \<Longrightarrow> rest = []"
  by (induction fifo arbitrary: num w rest num' w' evs) (auto simp: Let_def split: prod.splits)

lemma drain_stop:
  "Update_drain T X timeout b fifo num w = (rest, num', w', evs) \<Longrightarrow> rest \<noteq> [] \<Longrightarrow>
     timeout \<noteq> 0 \<and> getMSTimeDiffToNow T b w' > timeout"
  by (induction fifo arbitrary: num w rest num' w' evs)
     (auto simp: Let_def split: prod.splits if_splits)

lemma drain_continue:
  "Update_drain T X timeout b fifo num w = (rest, num', w', evs) \<Longrightarrow>
     0 < j \<Longrightarrow> j < length fifo - length rest \<Longrightarrow>
     \<not> (timeout \<noteq> 0 \<and> getMSTimeDiffToNow T b (fold X (take j fifo) w) > timeout)"
proof (induction fifo arbitrary: num w rest num' w' evs j)
  case Nil
  then show ?case by simp
next
  case (Cons s fifo)
  show ?case
  proof (cases "timeout \<noteq> 0 \<and> getMSTimeDiffToNow T b (X s w) > timeout")
    case True
    with Cons.prems show ?thesis by auto
  next
    case False
    obtain r n' v es where rec: "Update_drain T X timeout b fifo (num - 1) (X s w) = (r, n', v, es)"
      by (cases "Update_drain T X timeout b fifo (num - 1) (X s w)") auto
    from Cons.prems(1) False rec have eqs: "rest = r"
      by (auto simp: Let_def)
    have le: "length r \<le> length fifo"
      using drain_shape [OF rec] by simp
    show ?thesis
    proof (cases j)
      case 0
      with Cons.prems show ?thesis by simp
    next
      case (Suc i)
      show ?thesis
      proof (cases "i = 0")
        case True
        with Suc False show ?thesis by simp
      next
        case False
        then have "0 < i" by simp
        moreover have "i < length fifo - length r"
          using Cons.prems(3) Suc eqs le by simp
        ultimately have "\<not> (timeout \<noteq> 0 \<and> getMSTimeDiffToNow T b (fold X (take i fifo) (X s w)) > timeout)"
          using Cons.IH [OF rec] by blast
        then show ?thesis using Suc by simp
      qed
    qed
  qed
qed

lemma drain_first:
  "Update_drain T X timeout b (s # fifo) num w = (rest, num', w', evs) \<Longrightarrow>
     (\<exists>es. evs = CbExecute s # CbDelete (cb_id s) # es) \<and> length rest \<le> length fifo"
  using drain_shape [of T X timeout b fifo "num - 1" "X s w"]
  by (auto simp: Let_def split: prod.splits if_splits)

lemma Update_unfold:
  "Update T X timeout q w =
     (case Update_drain T X timeout (getMSTime T w) (unsafe_backlog q)
             (numUnsafeQueries (Update_collect (inbound q) q)) w of
        (rest, num, w', evs) \<Rightarrow>
          ((Update_collect (inbound q) q)
             \<lparr>threadUnsafeWaitingQueries := rest, numUnsafeQueries := num,
              m_callbackThreads :=
                job_wait (fst (processWorkload (m_callbackThreads (Update_collect (inbound q) q))))
                  (snd (processWorkload (m_callbackThreads (Update_collect (inbound q) q))))\<rparr>,
           w', evs @ (if num > 1000 then [LogUnsafeRemaining num] else [])))"
  by (simp add: Update_def Let_def unsafe_backlog_def collect_unsafe split: prod.splits)

lemma executed_log: "executed (evs @ (if c then [LogUnsafeRemaining n] else [])) = executed evs"
  by (simp add: executed_append)

lemma Update_once:
  assumes "Update T X timeout q w = (q', w', evs)"
  shows "executed evs @ threadUnsafeWaitingQueries q' = unsafe_backlog q \<and>
        inbound q' = [] \<and>
        evs = concat (map delivery (executed evs)) @
              (if numUnsafeQueries q' > 1000 then [LogUnsafeRemaining (numUnsafeQueries q')] else []) \<and>
        w' = fold X (executed evs) w \<and>
        (timeout = 0 \<longrightarrow> threadUnsafeWaitingQueries q' = [] \<and> executed evs = unsafe_backlog q) \<and>
        (threadUnsafeWaitingQueries q' \<noteq> [] \<longrightarrow>
           timeout \<noteq> 0 \<and> getMSTimeDiffToNow T (getMSTime T w) w' > timeout) \<and>
        (\<forall>j. 0 < j \<and> j < length (executed evs) \<longrightarrow>
           \<not> (timeout \<noteq> 0 \<and>
              getMSTimeDiffToNow T (getMSTime T w) (fold X (take j (unsafe_backlog q)) w) > timeout))"
proof -
  let ?q1 = "Update_collect (inbound q) q"
  obtain rest num w0 es where d:
    "Update_drain T X timeout (getMSTime T w) (unsafe_backlog q) (numUnsafeQueries ?q1) w = (rest, num, w0, es)"
    by (cases "Update_drain T X timeout (getMSTime T w) (unsafe_backlog q) (numUnsafeQueries ?q1) w") auto
  define k where "k = length (unsafe_backlog q) - length rest"
  from drain_shape [OF d] have sh:
    "es = concat (map delivery (take k (unsafe_backlog q)))"
    "rest = drop k (unsafe_backlog q)"
    "length rest \<le> length (unsafe_backlog q)"
    "w0 = fold X (take k (unsafe_backlog q)) w"
    unfolding k_def by auto
  have ex: "executed es = take k (unsafe_backlog q)"
    by (subst sh(1)) (rule executed_deliveries)
  have len: "length (executed es) = k"
    using ex sh(3) by (simp add: k_def)
  from assms have res: "threadUnsafeWaitingQueries q' = rest" "inbound q' = []"
    "numUnsafeQueries q' = num" "w' = w0"
    "evs = es @ (if num > 1000 then [LogUnsafeRemaining num] else [])"
    by (auto simp: Update_unfold d collect_inbound)
  have exe: "executed evs = executed es"
    unfolding res(5) by (rule executed_log)
  have c1: "executed evs @ threadUnsafeWaitingQueries q' = unsafe_backlog q"
    unfolding exe ex res(1) by (simp add: sh(2))
  have c3: "evs = concat (map delivery (executed evs)) @
              (if numUnsafeQueries q' > 1000 then [LogUnsafeRemaining (numUnsafeQueries q')] else [])"
    unfolding exe ex res(3) using sh(1) res(5) by simp
  have c4: "w' = fold X (executed evs) w"
    unfolding exe ex res(4) by (rule sh(4))
  have c5: "timeout = 0 \<longrightarrow> threadUnsafeWaitingQueries q' = [] \<and> executed evs = unsafe_backlog q"
  proof
    assume z: "timeout = 0"
    with d have "rest = []" by (auto dest: drain_zero)
    then show "threadUnsafeWaitingQueries q' = [] \<and> executed evs = unsafe_backlog q"
      unfolding exe ex res(1) by (simp add: k_def)
  qed
  have c6: "threadUnsafeWaitingQueries q' \<noteq> [] \<longrightarrow>
           timeout \<noteq> 0 \<and> getMSTimeDiffToNow T (getMSTime T w) w' > timeout"
    unfolding res(1) res(4) using drain_stop [OF d] by simp
  have c7: "\<forall>j. 0 < j \<and> j < length (executed evs) \<longrightarrow>
           \<not> (timeout \<noteq> 0 \<and>
              getMSTimeDiffToNow T (getMSTime T w) (fold X (take j (unsafe_backlog q)) w) > timeout)"
    unfolding exe len k_def using drain_continue [OF d] by blast
  show ?thesis
    using c1 res(2) c3 c4 c5 c6 c7 by blast
qed

text \<open>
  Claim C3. \<^verbatim>\<open>SqlResultQueue::Update\<close> runs a front part of the waiting
  thread-unsafe callbacks (those already waiting, then the thread-unsafe ones taken from
  the inbound queue), in that order, deleting each right after it ran, and leaves the
  rest waiting in order: nothing is skipped and nothing runs twice. With a budget of
  zero nothing is left. Callbacks are left only if the budget is not zero and the time
  elapsed after the last one that ran exceeds it, and after no earlier one it did. A
  following call with a budget of zero runs exactly what was left.
\<close>

theorem Update_drains_in_order:
  "(case Update T X timeout q w of
      (q', w', evs) \<Rightarrow>
        executed evs @ threadUnsafeWaitingQueries q' = unsafe_backlog q \<and>
        inbound q' = [] \<and>
        evs = concat (map delivery (executed evs)) @
              (if numUnsafeQueries q' > 1000 then [LogUnsafeRemaining (numUnsafeQueries q')] else []) \<and>
        w' = fold X (executed evs) w \<and>
        (timeout = 0 \<longrightarrow> threadUnsafeWaitingQueries q' = [] \<and> executed evs = unsafe_backlog q) \<and>
        (threadUnsafeWaitingQueries q' \<noteq> [] \<longrightarrow>
           timeout \<noteq> 0 \<and> getMSTimeDiffToNow T (getMSTime T w) w' > timeout) \<and>
        (\<forall>j. 0 < j \<and> j < length (executed evs) \<longrightarrow>
           \<not> (timeout \<noteq> 0 \<and>
              getMSTimeDiffToNow T (getMSTime T w) (fold X (take j (unsafe_backlog q)) w) > timeout)) \<and>
        (case Update T2 X 0 q' w' of
           (q'', w'', evs') \<Rightarrow>
             executed evs' = threadUnsafeWaitingQueries q' \<and>
             threadUnsafeWaitingQueries q'' = [] \<and>
             executed evs @ executed evs' = unsafe_backlog q))"
proof -
  obtain q' w' evs where U1: "Update T X timeout q w = (q', w', evs)"
    by (cases "Update T X timeout q w") auto
  obtain q'' w'' evs' where U2: "Update T2 X 0 q' w' = (q'', w'', evs')"
    by (cases "Update T2 X 0 q' w'") auto
  note first = Update_once [OF U1]
  note second = Update_once [OF U2]
  from first have inb: "inbound q' = []" by blast
  have backlog': "unsafe_backlog q' = threadUnsafeWaitingQueries q'"
    by (simp add: unsafe_backlog_def inb)
  from second have s: "threadUnsafeWaitingQueries q'' = []"
    "executed evs' = threadUnsafeWaitingQueries q'"
    by (simp_all add: backlog')
  from first have "executed evs @ threadUnsafeWaitingQueries q' = unsafe_backlog q" by blast
  with s have follow: "executed evs' = threadUnsafeWaitingQueries q' \<and>
             threadUnsafeWaitingQueries q'' = [] \<and>
             executed evs @ executed evs' = unsafe_backlog q"
    by simp
  show ?thesis
    unfolding U1 prod.case U2 using first follow by blast
qed

text \<open>
  Claim C10. Whatever the budget and the clock, a call of
  \<^verbatim>\<open>SqlResultQueue::Update\<close> that finds a thread-unsafe callback waiting once the
  inbound queue is taken over runs the first of them on the world the call started
  with and deletes it, before anything else is run: the budget is looked at only after
  a callback ran. What runs after it and what is left waiting are the other waiting
  callbacks, in order.
\<close>

theorem Update_runs_first_unsafe:
  assumes "unsafe_backlog q = s # others"
  shows "(case Update T X timeout q w of
           (q', w', evs) \<Rightarrow>
             (\<exists>es. evs = CbExecute s # CbDelete (cb_id s) # es \<and>
                   w' = fold X (executed es) (X s w) \<and>
                   executed es @ threadUnsafeWaitingQueries q' = others) \<and>
             length (threadUnsafeWaitingQueries q') < length (unsafe_backlog q))"
proof -
  let ?q1 = "Update_collect (inbound q) q"
  obtain q' w' evs where U: "Update T X timeout q w = (q', w', evs)"
    by (cases "Update T X timeout q w") auto
  obtain rest num w0 es where d:
    "Update_drain T X timeout (getMSTime T w) (s # others) (numUnsafeQueries ?q1) w = (rest, num, w0, es)"
    by (cases "Update_drain T X timeout (getMSTime T w) (s # others) (numUnsafeQueries ?q1) w") auto
  from drain_first [OF d] obtain es' where es':
    "es = CbExecute s # CbDelete (cb_id s) # es'" "length rest \<le> length others"
    by blast
  from U have "evs = es @ (if num > 1000 then [LogUnsafeRemaining num] else [])"
    and rest: "threadUnsafeWaitingQueries q' = rest"
    by (auto simp: Update_unfold assms d simp del: Update_drain.simps)
  with es' obtain es2 where es2: "evs = CbExecute s # CbDelete (cb_id s) # es2"
    by auto
  then have ex: "executed evs = s # executed es2"
    by simp
  from Update_once [OF U] have
    "executed evs @ threadUnsafeWaitingQueries q' = unsafe_backlog q"
    "w' = fold X (executed evs) w"
    by blast+
  then have "executed es2 @ threadUnsafeWaitingQueries q' = others"
    "w' = fold X (executed es2) (X s w)"
    unfolding ex assms by simp_all
  with es2 have first: "\<exists>es. evs = CbExecute s # CbDelete (cb_id s) # es \<and>
                   w' = fold X (executed es) (X s w) \<and>
                   executed es @ threadUnsafeWaitingQueries q' = others"
    by blast
  have "length (threadUnsafeWaitingQueries q') < length (unsafe_backlog q)"
    using rest es'(2) assms by simp
  with first show ?thesis
    unfolding U prod.case by blast
qed

lemma CancelAll_loop_shape:
  "CancelAll_loop X cbs w =
     (fold X (map (\<lambda>cb. cb\<lparr>cb_result := None\<rparr>) cbs) w, concat (map cancelled_delivery cbs))"
  by (induction cbs arbitrary: w)
     (auto simp: Let_def cb_SetResult_def cancelled_delivery_def split: prod.splits)

text \<open>
  Claim C4. \<^verbatim>\<open>SqlResultQueue::CancelAll\<close> empties the inbound queue and leaves the
  queue of thread-unsafe callbacks, the counter and the pool as they were. For each of
  the N callbacks of the inbound queue, in order, it sets the empty result, runs the
  callback with that result on the caller's world and deletes it: N callbacks run, each
  once.
\<close>

theorem CancelAll_delivers_each_once:
  "CancelAll X q w =
     (q\<lparr>inbound := []\<rparr>,
      fold X (map (\<lambda>cb. cb\<lparr>cb_result := None\<rparr>) (inbound q)) w,
      concat (map cancelled_delivery (inbound q))) \<and>
   executed (concat (map cancelled_delivery (inbound q))) =
      map (\<lambda>cb. cb\<lparr>cb_result := None\<rparr>) (inbound q) \<and>
   length (executed (concat (map cancelled_delivery (inbound q)))) = length (inbound q)"
  by (simp add: CancelAll_def CancelAll_loop_shape executed_cancelled)

lemmas ex_defs = ex_cb_def ex_queue_def ex_timer_def ex_Execute_def

lemma ex_Update_7:
  "Update ex_timer ex_Execute 7 ex_queue 100 =
     (\<lparr>inbound = [], threadUnsafeWaitingQueries = [ex_cb 3 False], numUnsafeQueries = 1,
       m_callbackThreads = \<lparr>pool_workload = [], pool_finished = [ex_cb 9 True]\<rparr>\<rparr>,
      110,
      [CbExecute (ex_cb 1 False), CbDelete 1, CbExecute (ex_cb 2 False), CbDelete 2])"
  by (simp add: Update_def ex_defs processWorkload_def job_wait_def pool_submit_def Let_def)

lemma ex_Update_0_after:
  "Update ex_timer ex_Execute 0
     \<lparr>inbound = [], threadUnsafeWaitingQueries = [ex_cb 3 False], numUnsafeQueries = 1,
       m_callbackThreads = \<lparr>pool_workload = [], pool_finished = [ex_cb 9 True]\<rparr>\<rparr> 110 =
     (\<lparr>inbound = [], threadUnsafeWaitingQueries = [], numUnsafeQueries = 0,
       m_callbackThreads = \<lparr>pool_workload = [], pool_finished = [ex_cb 9 True]\<rparr>\<rparr>,
      115,
      [CbExecute (ex_cb 3 False), CbDelete 3])"
  by (simp add: Update_def ex_defs processWorkload_def job_wait_def pool_submit_def Let_def)

theorem Update_drains_in_order_witness:
  "(7 :: u32) \<noteq> 0 \<and>
   executed (snd (snd (Update ex_timer ex_Execute 7 ex_queue 100))) = [ex_cb 1 False, ex_cb 2 False] \<and>
   threadUnsafeWaitingQueries (fst (Update ex_timer ex_Execute 7 ex_queue 100)) = [ex_cb 3 False] \<and>
   getMSTimeDiffToNow ex_timer (getMSTime ex_timer 100)
      (fst (snd (Update ex_timer ex_Execute 7 ex_queue 100))) > 7 \<and>
   executed (snd (snd (Update ex_timer ex_Execute 0
      (fst (Update ex_timer ex_Execute 7 ex_queue 100))
      (fst (snd (Update ex_timer ex_Execute 7 ex_queue 100)))))) = [ex_cb 3 False] \<and>
   unsafe_backlog ex_queue = [ex_cb 1 False, ex_cb 2 False, ex_cb 3 False]"
proof -
  have e: "executed [CbExecute (ex_cb 1 False), CbDelete 1, CbExecute (ex_cb 2 False), CbDelete 2]
             = [ex_cb 1 False, ex_cb 2 False]"
    by simp
  have e3: "executed [CbExecute (ex_cb 3 False), CbDelete 3] = [ex_cb 3 False]"
    by simp
  have d: "getMSTimeDiffToNow ex_timer (getMSTime ex_timer 100) 110 > 7"
    by (simp add: ex_timer_def)
  from Update_drains_in_order [where T = ex_timer and X = ex_Execute and timeout = 7
            and q = ex_queue and w = 100 and ?T2.0 = ex_timer]
  have "executed [CbExecute (ex_cb 1 False), CbDelete 1, CbExecute (ex_cb 2 False), CbDelete 2] @
          [ex_cb 3 False] = unsafe_backlog ex_queue"
    unfolding ex_Update_7 prod.case SqlResultQueue.simps by (rule conjunct1)
  then have b: "unsafe_backlog ex_queue = [ex_cb 1 False, ex_cb 2 False, ex_cb 3 False]"
    unfolding e by simp
  show ?thesis
    unfolding ex_Update_7 fst_conv snd_conv SqlResultQueue.simps ex_Update_0_after e e3 b
    using d by simp
qed

lemma ex_Update_late:
  "Update ex_late_timer ex_Execute 1 ex_queue 100 =
     (\<lparr>inbound = [], threadUnsafeWaitingQueries = [ex_cb 2 False, ex_cb 3 False],
       numUnsafeQueries = 2,
       m_callbackThreads = \<lparr>pool_workload = [], pool_finished = [ex_cb 9 True]\<rparr>\<rparr>,
      105,
      [CbExecute (ex_cb 1 False), CbDelete 1])"
  by (simp add: Update_def ex_cb_def ex_queue_def ex_late_timer_def ex_Execute_def
        processWorkload_def job_wait_def pool_submit_def Let_def)

theorem Update_runs_first_unsafe_witness:
  "unsafe_backlog ex_queue = ex_cb 1 False # [ex_cb 2 False, ex_cb 3 False] \<and>
   (\<exists>es. snd (snd (Update ex_late_timer ex_Execute 1 ex_queue 100)) =
           CbExecute (ex_cb 1 False) # CbDelete (cb_id (ex_cb 1 False)) # es \<and>
         fst (snd (Update ex_late_timer ex_Execute 1 ex_queue 100)) =
           fold ex_Execute (executed es) (ex_Execute (ex_cb 1 False) 100) \<and>
         executed es @
           threadUnsafeWaitingQueries (fst (Update ex_late_timer ex_Execute 1 ex_queue 100)) =
           [ex_cb 2 False, ex_cb 3 False]) \<and>
   fst (snd (Update ex_late_timer ex_Execute 1 ex_queue 100)) = 105 \<and>
   snd (snd (Update ex_late_timer ex_Execute 1 ex_queue 100)) =
     [CbExecute (ex_cb 1 False), CbDelete 1]"
proof -
  have b: "unsafe_backlog ex_queue = ex_cb 1 False # [ex_cb 2 False, ex_cb 3 False]"
    by (simp add: unsafe_backlog_def ex_queue_def ex_cb_def)
  from Update_runs_first_unsafe [OF b, where T = ex_late_timer and X = ex_Execute
      and timeout = 1 and w = 100]
  have "\<exists>es. snd (snd (Update ex_late_timer ex_Execute 1 ex_queue 100)) =
           CbExecute (ex_cb 1 False) # CbDelete (cb_id (ex_cb 1 False)) # es \<and>
         fst (snd (Update ex_late_timer ex_Execute 1 ex_queue 100)) =
           fold ex_Execute (executed es) (ex_Execute (ex_cb 1 False) 100) \<and>
         executed es @
           threadUnsafeWaitingQueries (fst (Update ex_late_timer ex_Execute 1 ex_queue 100)) =
           [ex_cb 2 False, ex_cb 3 False]"
    unfolding case_prod_beta by blast
  moreover have "fst (snd (Update ex_late_timer ex_Execute 1 ex_queue 100)) = 105"
    "snd (snd (Update ex_late_timer ex_Execute 1 ex_queue 100)) =
       [CbExecute (ex_cb 1 False), CbDelete 1]"
    by (simp_all add: ex_Update_late)
  ultimately show ?thesis
    using b by blast
qed

theorem CancelAll_delivers_each_once_witness:
  "CancelAll ex_Execute ex_queue 100 =
     (ex_queue\<lparr>inbound := []\<rparr>, 115,
      [CbSetResult 2 None, CbExecute ((ex_cb 2 False)\<lparr>cb_result := None\<rparr>), CbDelete 2,
       CbSetResult 9 None, CbExecute ((ex_cb 9 True)\<lparr>cb_result := None\<rparr>), CbDelete 9,
       CbSetResult 3 None, CbExecute ((ex_cb 3 False)\<lparr>cb_result := None\<rparr>), CbDelete 3])"
  using CancelAll_delivers_each_once [of ex_Execute ex_queue 100]
  by (simp add: ex_defs cancelled_delivery_def)

section \<open>Properties of operations and of the worker\<close>

lemma run_members_Nil: "run_members D [] st = st"
  by (simp add: run_members_def)

lemma run_members_Cons: "run_members D (m # ms) st = run_members D ms (snd (Execute D m st))"
  by (simp add: run_members_def)

lemma run_members_append: "run_members D (xs @ ys) st = run_members D ys (run_members D xs st)"
  by (simp add: run_members_def)

lemma loop_fails_at:
  "k < length ms \<Longrightarrow>
   (\<forall>j<k. fst (Execute D (ms ! j) (run_members D (take j ms) s))) \<Longrightarrow>
   \<not> fst (Execute D (ms ! k) (run_members D (take k ms) s)) \<Longrightarrow>
   SqlTransaction_loop D ms s = (False, run_members D (take (Suc k) ms) s)"
proof (induction ms arbitrary: k s)
  case Nil
  then show ?case by simp
next
  case (Cons m ms)
  show ?case
  proof (cases k)
    case 0
    with Cons.prems(3) show ?thesis
      by (auto simp: run_members_Nil run_members_Cons split: prod.splits)
  next
    case (Suc i)
    from Cons.prems(2) Suc have ok: "fst (Execute D m s)"
      by (auto simp: run_members_Nil dest: spec [of _ 0])
    have i: "i < length ms" using Cons.prems(1) Suc by simp
    have before: "\<forall>j<i. fst (Execute D (ms ! j) (run_members D (take j ms) (snd (Execute D m s))))"
    proof (intro allI impI)
      fix j assume "j < i"
      then have "Suc j < k" using Suc by simp
      with Cons.prems(2) have "fst (Execute D ((m # ms) ! Suc j) (run_members D (take (Suc j) (m # ms)) s))"
        by blast
      then show "fst (Execute D (ms ! j) (run_members D (take j ms) (snd (Execute D m s))))"
        by (simp add: run_members_Cons)
    qed
    have at: "\<not> fst (Execute D (ms ! i) (run_members D (take i ms) (snd (Execute D m s))))"
      using Cons.prems(3) Suc by (simp add: run_members_Cons)
    from Cons.IH [OF i before at] ok show ?thesis
      by (auto simp: Suc run_members_Cons split: prod.splits)
  qed
qed

lemma loop_completes:
  "(\<forall>j<length ms. fst (Execute D (ms ! j) (run_members D (take j ms) s))) \<Longrightarrow>
   SqlTransaction_loop D ms s = (True, run_members D ms s)"
proof (induction ms arbitrary: s)
  case Nil
  then show ?case by (simp add: run_members_Nil)
next
  case (Cons m ms)
  from Cons.prems have ok: "fst (Execute D m s)"
    by (auto simp: run_members_Nil dest: spec [of _ 0])
  have rest: "\<forall>j<length ms. fst (Execute D (ms ! j) (run_members D (take j ms) (snd (Execute D m s))))"
  proof (intro allI impI)
    fix j assume "j < length ms"
    then have "Suc j < length (m # ms)" by simp
    with Cons.prems have "fst (Execute D ((m # ms) ! Suc j) (run_members D (take (Suc j) (m # ms)) s))"
      by blast
    then show "fst (Execute D (ms ! j) (run_members D (take j ms) (snd (Execute D m s))))"
      by (simp add: run_members_Cons)
  qed
  from Cons.IH [OF rest] ok show ?case
    by (auto simp: run_members_Cons split: prod.splits)
qed

text \<open>
  Claim C1. \<^verbatim>\<open>SqlTransaction::Execute\<close> on an empty transaction answers true and
  touches nothing, the guard included. Otherwise it takes the guard and begins a
  transaction, once each. If member \<open>k\<close> is the first whose \<^verbatim>\<open>Execute\<close> answers
  false, the members up to and including \<open>k\<close> have run in order and none after it,
  the transaction is rolled back once, the guard is released and the answer is false.
  If every member answers true, all have run in order, the transaction is committed
  once, the guard is released and the answer is that of the commit.
\<close>

theorem SqlTransaction_all_or_nothing:
  "Execute D (SqlTransaction []) st = (True, st) \<and>
   conn_calls (BeginTransaction D (LOCK_DB_CONN st)) = conn_calls st @ [ConnLock, ConnBeginTransaction] \<and>
   (k < length ms \<and>
    (\<forall>j<k. fst (Execute D (ms ! j)
               (run_members D (take j ms) (BeginTransaction D (LOCK_DB_CONN st))))) \<and>
    \<not> fst (Execute D (ms ! k) (run_members D (take k ms) (BeginTransaction D (LOCK_DB_CONN st))))
    \<longrightarrow>
      Execute D (SqlTransaction ms) st =
        (False,
         guard_release (RollbackTransaction D
           (run_members D (take (Suc k) ms) (BeginTransaction D (LOCK_DB_CONN st))))) \<and>
      conn_calls (snd (Execute D (SqlTransaction ms) st)) =
        conn_calls (run_members D (take (Suc k) ms) (BeginTransaction D (LOCK_DB_CONN st)))
          @ [ConnRollbackTransaction, ConnUnlock]) \<and>
   (ms \<noteq> [] \<and>
    (\<forall>j<length ms. fst (Execute D (ms ! j)
               (run_members D (take j ms) (BeginTransaction D (LOCK_DB_CONN st)))))
    \<longrightarrow>
      Execute D (SqlTransaction ms) st =
        (fst (CommitTransaction D (run_members D ms (BeginTransaction D (LOCK_DB_CONN st)))),
         guard_release (snd (CommitTransaction D
           (run_members D ms (BeginTransaction D (LOCK_DB_CONN st)))))) \<and>
      conn_calls (snd (Execute D (SqlTransaction ms) st)) =
        conn_calls (run_members D ms (BeginTransaction D (LOCK_DB_CONN st)))
          @ [ConnCommitTransaction, ConnUnlock])"
proof -
  let ?st2 = "BeginTransaction D (LOCK_DB_CONN st)"
  have a: "Execute D (SqlTransaction []) st = (True, st)" by simp
  have b: "conn_calls ?st2 = conn_calls st @ [ConnLock, ConnBeginTransaction]"
    by (simp add: BeginTransaction_def LOCK_DB_CONN_def called_def)
  have c: "Execute D (SqlTransaction ms) st =
        (False, guard_release (RollbackTransaction D (run_members D (take (Suc k) ms) ?st2))) \<and>
      conn_calls (snd (Execute D (SqlTransaction ms) st)) =
        conn_calls (run_members D (take (Suc k) ms) ?st2) @ [ConnRollbackTransaction, ConnUnlock]"
    if "k < length ms" and "\<forall>j<k. fst (Execute D (ms ! j) (run_members D (take j ms) ?st2))"
      and "\<not> fst (Execute D (ms ! k) (run_members D (take k ms) ?st2))"
  proof -
    from that(1) have ne: "ms \<noteq> []" by auto
    from loop_fails_at [OF that] ne show ?thesis
      by (simp add: Let_def guard_release_def RollbackTransaction_def called_def)
  qed
  have d: "Execute D (SqlTransaction ms) st =
        (fst (CommitTransaction D (run_members D ms ?st2)),
         guard_release (snd (CommitTransaction D (run_members D ms ?st2)))) \<and>
      conn_calls (snd (Execute D (SqlTransaction ms) st)) =
        conn_calls (run_members D ms ?st2) @ [ConnCommitTransaction, ConnUnlock]"
    if "ms \<noteq> []" and "\<forall>j<length ms. fst (Execute D (ms ! j) (run_members D (take j ms) ?st2))"
  proof -
    from loop_completes [OF that(2)] that(1) show ?thesis
      by (simp add: Let_def guard_release_def CommitTransaction_def called_def split: prod.splits)
  qed
  from a b c d show ?thesis by blast
qed

lemmas conn_defs = called_def LOCK_DB_CONN_def guard_release_def conn_Execute_def
  conn_ExecuteStmt_def conn_Query_def BeginTransaction_def CommitTransaction_def
  RollbackTransaction_def

lemma ex_plain:
  "Execute ex_driver (SqlPlainRequest sql) st =
     (sql \<noteq> ''BAD'',
      st\<lparr>conn_state := Suc (conn_state st),
         conn_calls := conn_calls st @ [ConnLock, ConnExecute sql, ConnUnlock]\<rparr>)"
  by (simp add: SqlPlainRequest_Execute_def conn_defs ex_driver_def)

theorem SqlTransaction_all_or_nothing_witness:
  "Execute ex_driver
     (SqlTransaction [SqlPlainRequest ''A'', SqlPlainRequest ''BAD'', SqlPlainRequest ''C'']) ex_db =
     (False,
      ex_db\<lparr>conn_state := 2,
            conn_calls := [ConnLock, ConnBeginTransaction,
              ConnLock, ConnExecute ''A'', ConnUnlock,
              ConnLock, ConnExecute ''BAD'', ConnUnlock,
              ConnRollbackTransaction, ConnUnlock]\<rparr>) \<and>
   Execute ex_driver (SqlTransaction [SqlPlainRequest ''A'', SqlPlainRequest ''C'']) ex_db =
     (True,
      ex_db\<lparr>conn_state := 2,
            conn_calls := [ConnLock, ConnBeginTransaction,
              ConnLock, ConnExecute ''A'', ConnUnlock,
              ConnLock, ConnExecute ''C'', ConnUnlock,
              ConnCommitTransaction, ConnUnlock]\<rparr>)"
proof -
  have two: "(\<forall>j<Suc (Suc 0). P j) \<longleftrightarrow> P 0 \<and> P (Suc 0)" for P :: "nat \<Rightarrow> bool"
    by (auto simp: less_Suc_eq)
  have one: "(\<forall>j<Suc 0. P j) \<longleftrightarrow> P 0" for P :: "nat \<Rightarrow> bool"
    by simp
  from SqlTransaction_all_or_nothing [where D = ex_driver and st = ex_db and k = 1
         and ms = "[SqlPlainRequest ''A'', SqlPlainRequest ''BAD'', SqlPlainRequest ''C'']"]
  have fails: "Execute ex_driver
     (SqlTransaction [SqlPlainRequest ''A'', SqlPlainRequest ''BAD'', SqlPlainRequest ''C'']) ex_db =
     (False, guard_release (RollbackTransaction ex_driver
        (run_members ex_driver (take (Suc 1) [SqlPlainRequest ''A'', SqlPlainRequest ''BAD'', SqlPlainRequest ''C''])
           (BeginTransaction ex_driver (LOCK_DB_CONN ex_db)))))"
    by (simp add: one run_members_Nil run_members_Cons ex_plain del: Execute.simps)
  from SqlTransaction_all_or_nothing [where D = ex_driver and st = ex_db and k = 0
         and ms = "[SqlPlainRequest ''A'', SqlPlainRequest ''C'']"]
  have commits: "Execute ex_driver (SqlTransaction [SqlPlainRequest ''A'', SqlPlainRequest ''C'']) ex_db =
        (fst (CommitTransaction ex_driver (run_members ex_driver [SqlPlainRequest ''A'', SqlPlainRequest ''C'']
             (BeginTransaction ex_driver (LOCK_DB_CONN ex_db)))),
         guard_release (snd (CommitTransaction ex_driver
           (run_members ex_driver [SqlPlainRequest ''A'', SqlPlainRequest ''C'']
             (BeginTransaction ex_driver (LOCK_DB_CONN ex_db))))))"
    by (simp add: two run_members_Nil run_members_Cons ex_plain del: Execute.simps)
  show ?thesis
    unfolding fails commits
    apply (simp add: run_members_Nil run_members_Cons ex_plain del: Execute.simps)
    apply (simp add: conn_defs ex_driver_def ex_db_def)
    done
qed

lemma ProcessRequests_loop_shape:
  "\<exists>rs. length rs = length ops \<and>
     ProcessRequests_loop D ops st = (run_members D ops st, concat (map2 handled ops rs))"
proof (induction ops arbitrary: st)
  case Nil
  then show ?case by (simp add: run_members_Nil)
next
  case (Cons s ops)
  obtain r st1 where e: "Execute D s st = (r, st1)"
    by (cases "Execute D s st") auto
  from Cons.IH [of st1] obtain rs where rs: "length rs = length ops"
    "ProcessRequests_loop D ops st1 = (run_members D ops st1, concat (map2 handled ops rs))"
    by blast
  have "length (r # rs) = length (s # ops) \<and>
     ProcessRequests_loop D (s # ops) st =
       (run_members D (s # ops) st, concat (map2 handled (s # ops) (r # rs)))"
    using rs e by (simp add: run_members_Cons handled_def)
  then show ?case by blast
qed

lemma executed_ops_append: "executed_ops (xs @ ys) = executed_ops xs @ executed_ops ys"
  by (induction xs rule: executed_ops.induct) auto

lemma deleted_ops_append: "deleted_ops (xs @ ys) = deleted_ops xs @ deleted_ops ys"
  by (induction xs rule: deleted_ops.induct) auto

lemma executed_ops_handled:
  "length rs = length ops \<Longrightarrow> executed_ops (concat (map2 handled ops rs)) = ops"
  by (induction ops rs rule: list_induct2') (auto simp: handled_def)

lemma deleted_ops_handled:
  "length rs = length ops \<Longrightarrow> deleted_ops (concat (map2 handled ops rs)) = ops"
  by (induction ops rs rule: list_induct2') (auto simp: handled_def)

lemma no_ping_handled: "EnginePing \<notin> set (concat (map2 handled ops rs))"
  by (auto simp: handled_def)

lemma ProcessRequests_shape:
  "\<exists>rs. length rs = length (m_delayQueue (m_dbEngine t) @ m_serialDelayQueue t) \<and>
     ProcessRequests D t st =
       (t\<lparr>m_dbEngine := (m_dbEngine t)\<lparr>m_delayQueue := []\<rparr>, m_serialDelayQueue := []\<rparr>,
        run_members D (m_delayQueue (m_dbEngine t) @ m_serialDelayQueue t) st,
        concat (map2 handled (m_delayQueue (m_dbEngine t) @ m_serialDelayQueue t) rs))"
proof -
  let ?d = "m_delayQueue (m_dbEngine t)" and ?s = "m_serialDelayQueue t"
  obtain rs1 where 1: "length rs1 = length ?d"
    "ProcessRequests_loop D ?d st = (run_members D ?d st, concat (map2 handled ?d rs1))"
    using ProcessRequests_loop_shape [of ?d D st] by blast
  obtain rs2 where 2: "length rs2 = length ?s"
    "ProcessRequests_loop D ?s (run_members D ?d st) =
       (run_members D ?s (run_members D ?d st), concat (map2 handled ?s rs2))"
    using ProcessRequests_loop_shape [of ?s D "run_members D ?d st"] by blast
  have "length (rs1 @ rs2) = length (?d @ ?s) \<and>
     ProcessRequests D t st =
       (t\<lparr>m_dbEngine := (m_dbEngine t)\<lparr>m_delayQueue := []\<rparr>, m_serialDelayQueue := []\<rparr>,
        run_members D (?d @ ?s) st, concat (map2 handled (?d @ ?s) (rs1 @ rs2)))"
    using 1 2 by (simp add: ProcessRequests_def run_members_append)
  then show ?thesis by blast
qed

text \<open>
  Claim C5. The destructor of \<^verbatim>\<open>SqlDelayThread\<close> leaves both queues empty: every
  operation of the delayed queue and then every operation of the serial queue is
  executed once on the connection and deleted right after, in the order of the queues,
  and only then is the connection deleted.
\<close>

theorem destructor_drains_both_queues:
  "(case SqlDelayThread_destructor D t st of
      (t', st', evs) \<Rightarrow>
        m_delayQueue (m_dbEngine t') = [] \<and> m_serialDelayQueue t' = [] \<and>
        st' = run_members D (m_delayQueue (m_dbEngine t) @ m_serialDelayQueue t) st \<and>
        (\<exists>rs. length rs = length (m_delayQueue (m_dbEngine t) @ m_serialDelayQueue t) \<and>
           evs = concat (map2 handled (m_delayQueue (m_dbEngine t) @ m_serialDelayQueue t) rs)
                   @ [DeleteConnection]) \<and>
        executed_ops evs = m_delayQueue (m_dbEngine t) @ m_serialDelayQueue t \<and>
        deleted_ops evs = m_delayQueue (m_dbEngine t) @ m_serialDelayQueue t)"
proof -
  let ?ops = "m_delayQueue (m_dbEngine t) @ m_serialDelayQueue t"
  obtain rs where rs: "length rs = length ?ops"
    "ProcessRequests D t st =
       (t\<lparr>m_dbEngine := (m_dbEngine t)\<lparr>m_delayQueue := []\<rparr>, m_serialDelayQueue := []\<rparr>,
        run_members D ?ops st, concat (map2 handled ?ops rs))"
    using ProcessRequests_shape [of t D st] by blast
  have ex: "executed_ops (concat (map2 handled ?ops rs) @ [DeleteConnection]) = ?ops"
    using executed_ops_handled [OF rs(1)] by (simp add: executed_ops_append)
  have de: "deleted_ops (concat (map2 handled ?ops rs) @ [DeleteConnection]) = ?ops"
    using deleted_ops_handled [OF rs(1)] by (simp add: deleted_ops_append)
  have "\<exists>rs'. length rs' = length ?ops \<and>
     concat (map2 handled ?ops rs) @ [DeleteConnection] =
       concat (map2 handled ?ops rs') @ [DeleteConnection]"
    using rs(1) by blast
  then show ?thesis
    unfolding SqlDelayThread_destructor_def rs(2) prod.case using ex de by simp
qed

text \<open>
  A pass of the worker's loop, after the requests are processed: if the counter the
  pass starts with is \<^verbatim>\<open>pingEveryLoop\<close> or more, the counter is zero afterwards, the
  engine is pinged and \<^verbatim>\<open>SELECT 1\<close> is sent on the connection; if it is less, the
  counter is one more than before and no ping is made.
\<close>

lemma run_body_ping_cadence:
  "(case ProcessRequests D t st of
      (t1, st1, evs1) \<Rightarrow>
        (case run_body D t st loopCounter of
           (t', st', loopCounter', evs) \<Rightarrow>
             t' = t1 \<and> EnginePing \<notin> set evs1 \<and>
             (pingEveryLoop t \<le> loopCounter \<longrightarrow>
                loopCounter' = 0 \<and> evs = [Sleep 10] @ evs1 @ [EnginePing] \<and>
                st' = snd (conn_Query D ''SELECT 1'' st1) \<and>
                conn_calls st' = conn_calls st1 @ [ConnQuery ''SELECT 1'']) \<and>
             (loopCounter < pingEveryLoop t \<longrightarrow>
                loopCounter' = loopCounter + 1 \<and> evs = [Sleep 10] @ evs1 \<and> st' = st1 \<and>
                EnginePing \<notin> set evs))) \<and>
   pingEveryLoop t = m_pingIntervallms (m_dbEngine t) div 10"
proof -
  let ?ops = "m_delayQueue (m_dbEngine t) @ m_serialDelayQueue t"
  obtain rs where rs:
    "ProcessRequests D t st =
       (t\<lparr>m_dbEngine := (m_dbEngine t)\<lparr>m_delayQueue := []\<rparr>, m_serialDelayQueue := []\<rparr>,
        run_members D ?ops st, concat (map2 handled ?ops rs))"
    using ProcessRequests_shape [of t D st] by blast
  have np: "EnginePing \<notin> set (concat (map2 handled ?ops rs))"
    by (rule no_ping_handled)
  have sl: "unat loopSleepms = 10"
    by (simp add: loopSleepms_def)
  have q: "conn_calls (snd (conn_Query D ''SELECT 1'' s)) = conn_calls s @ [ConnQuery ''SELECT 1'']" for s :: "'a db"
    by (simp add: conn_Query_def called_def split: prod.splits)
  have p: "pingEveryLoop t = m_pingIntervallms (m_dbEngine t) div 10"
    by (simp add: pingEveryLoop_def loopSleepms_def)
  show ?thesis
    unfolding run_body_def rs prod.case Let_def sl using np q p by auto
qed

lemma ex_ProcessRequests:
  "ProcessRequests ex_driver ex_thread ex_db =
     (\<lparr>m_dbEngine = \<lparr>m_delayQueue = [], m_pingIntervallms = 30\<rparr>,
       m_serialDelayQueue = [], m_running = False\<rparr>,
      ex_db\<lparr>conn_state := 3,
            conn_calls := [ConnLock, ConnExecute ''A'', ConnUnlock,
              ConnLock, ConnExecute ''BAD'', ConnUnlock,
              ConnLock, ConnExecute ''C'', ConnUnlock]\<rparr>,
      [OpExecute (SqlPlainRequest ''A'') True, OpDelete (SqlPlainRequest ''A''),
       OpExecute (SqlPlainRequest ''BAD'') False, OpDelete (SqlPlainRequest ''BAD''),
       OpExecute (SqlPlainRequest ''C'') True, OpDelete (SqlPlainRequest ''C'')])"
  apply (simp add: ProcessRequests_def ex_thread_def ex_plain del: Execute.simps)
  apply (simp add: ex_db_def)
  done

theorem destructor_drains_both_queues_witness:
  "SqlDelayThread_destructor ex_driver ex_thread ex_db =
     (\<lparr>m_dbEngine = \<lparr>m_delayQueue = [], m_pingIntervallms = 30\<rparr>,
       m_serialDelayQueue = [], m_running = False\<rparr>,
      ex_db\<lparr>conn_state := 3,
            conn_calls := [ConnLock, ConnExecute ''A'', ConnUnlock,
              ConnLock, ConnExecute ''BAD'', ConnUnlock,
              ConnLock, ConnExecute ''C'', ConnUnlock]\<rparr>,
      [OpExecute (SqlPlainRequest ''A'') True, OpDelete (SqlPlainRequest ''A''),
       OpExecute (SqlPlainRequest ''BAD'') False, OpDelete (SqlPlainRequest ''BAD''),
       OpExecute (SqlPlainRequest ''C'') True, OpDelete (SqlPlainRequest ''C''),
       DeleteConnection]) \<and>
   executed_ops (snd (snd (SqlDelayThread_destructor ex_driver ex_thread ex_db))) =
     [SqlPlainRequest ''A'', SqlPlainRequest ''BAD'', SqlPlainRequest ''C'']"
proof -
  from destructor_drains_both_queues [of ex_driver ex_thread ex_db]
  have "executed_ops (snd (snd (SqlDelayThread_destructor ex_driver ex_thread ex_db))) =
          m_delayQueue (m_dbEngine ex_thread) @ m_serialDelayQueue ex_thread"
    unfolding case_prod_beta by blast
  then show ?thesis
    by (simp add: SqlDelayThread_destructor_def ex_ProcessRequests)
qed

lemma run_body_ping_cadence_witness:
  "pingEveryLoop ex_thread = 3 \<and>
   fst (snd (snd (run_body ex_driver ex_thread ex_db 3))) = 0 \<and>
   snd (snd (snd (run_body ex_driver ex_thread ex_db 3))) =
     [Sleep 10] @ snd (snd (ProcessRequests ex_driver ex_thread ex_db)) @ [EnginePing] \<and>
   fst (snd (snd (run_body ex_driver ex_thread ex_db 2))) = 3 \<and>
   EnginePing \<notin> set (snd (snd (snd (run_body ex_driver ex_thread ex_db 2))))"
proof -
  have P: "pingEveryLoop ex_thread = 3"
    by (simp add: pingEveryLoop_def loopSleepms_def ex_thread_def)
  from run_body_ping_cadence [where D = ex_driver and t = ex_thread and st = ex_db and loopCounter = 3]
  have a: "fst (snd (snd (run_body ex_driver ex_thread ex_db 3))) = 0 \<and>
           snd (snd (snd (run_body ex_driver ex_thread ex_db 3))) =
             [Sleep 10] @ snd (snd (ProcessRequests ex_driver ex_thread ex_db)) @ [EnginePing]"
    unfolding case_prod_beta P by simp
  from run_body_ping_cadence [where D = ex_driver and t = ex_thread and st = ex_db and loopCounter = 2]
  have b: "fst (snd (snd (run_body ex_driver ex_thread ex_db 2))) = 3 \<and>
           EnginePing \<notin> set (snd (snd (snd (run_body ex_driver ex_thread ex_db 2))))"
    unfolding case_prod_beta P by simp
  from P a b show ?thesis by blast
qed

section \<open>Properties of the query holder batch\<close>












section \<open>The pings of a run of the loop\<close>

text \<open>
  The test \<^verbatim>\<open>(loopCounter++) >= pingEveryLoop\<close> reads the counter before it is
  incremented, so a ping is made in the pass that finds the counter at
  \<^verbatim>\<open>pingEveryLoop\<close>: starting from zero, \<open>n\<close> passes make one ping for every
  \<^verbatim>\<open>pingEveryLoop + 1\<close> passes.
\<close>

lemma pings_append: "pings (xs @ ys) = pings xs + pings ys"
  by (simp add: pings_def)

lemma pings_Nil: "pings [] = 0"
  by (simp add: pings_def)

lemma pings_Cons: "pings (e # es) = (if e = EnginePing then 1 else 0) + pings es"
  by (simp add: pings_def)

lemma pings_handled: "pings (concat (map2 handled ops rs)) = 0"
proof -
  have "\<forall>e \<in> set (concat (map2 handled ops rs)). e \<noteq> EnginePing"
    using no_ping_handled [of ops rs] by blast
  then show ?thesis
    unfolding pings_def by (simp only: filter_False list.size)
qed

lemma run_body_step:
  "\<exists>t1 st1 evs.
     run_body D t st c =
       (t1, st1, (if pingEveryLoop t \<le> c then 0 else c + 1), evs) \<and>
     pingEveryLoop t1 = pingEveryLoop t \<and>
     pings evs = (if pingEveryLoop t \<le> c then 1 else 0)"
proof -
  let ?ops = "m_delayQueue (m_dbEngine t) @ m_serialDelayQueue t"
  obtain rs where rs:
    "ProcessRequests D t st =
       (t\<lparr>m_dbEngine := (m_dbEngine t)\<lparr>m_delayQueue := []\<rparr>, m_serialDelayQueue := []\<rparr>,
        run_members D ?ops st, concat (map2 handled ?ops rs))"
    using ProcessRequests_shape [of t D st] by blast
  show ?thesis
    unfolding run_body_def rs prod.case Let_def
    by (simp add: pings_append pings_handled pings_Cons pings_Nil pingEveryLoop_def)
qed

lemma run_loop_pings:
  "c \<le> pingEveryLoop t \<Longrightarrow>
   pings (snd (snd (snd (run_loop D n t st c)))) =
     (n + unat c) div (unat (pingEveryLoop t) + 1)"
proof (induction n arbitrary: t st c)
  case 0
  have "unat c < unat (pingEveryLoop t) + 1"
    using 0 by (simp add: word_le_nat_alt)
  then show ?case by (simp add: pings_Nil)
next
  case (Suc n)
  obtain t1 st1 evs where b:
    "run_body D t st c = (t1, st1, (if pingEveryLoop t \<le> c then 0 else c + 1), evs)"
    "pingEveryLoop t1 = pingEveryLoop t"
    "pings evs = (if pingEveryLoop t \<le> c then 1 else 0)"
    using run_body_step [of D t st c] by blast
  show ?case
  proof (cases "pingEveryLoop t \<le> c")
    case True
    with Suc.prems have eq: "c = pingEveryLoop t" by simp
    have ih: "pings (snd (snd (snd (run_loop D n t1 st1 0)))) = (n + unat (0 :: u32)) div (unat (pingEveryLoop t) + 1)"
      using Suc.IH [of 0 t1 st1] by (simp add: b(2))
    have "(n + Suc (unat (pingEveryLoop t))) div Suc (unat (pingEveryLoop t)) =
        n div Suc (unat (pingEveryLoop t)) + 1"
      by (rule div_add_self2) simp
    then have "(Suc n + unat c) div (unat (pingEveryLoop t) + 1) = 1 + n div (unat (pingEveryLoop t) + 1)"
      unfolding eq by simp
    then show ?thesis
      using True ih b(3) by (simp add: b(1) case_prod_beta pings_append)
  next
    case False
    then have lt: "c < pingEveryLoop t" by simp
    then have le': "c + 1 \<le> pingEveryLoop t"
      by (simp add: inc_le)
    have "unat c < unat (pingEveryLoop t)"
      using lt by (simp add: word_less_nat_alt)
    moreover have "unat (pingEveryLoop t) < 2 ^ 32"
      using unsigned_less [of "pingEveryLoop t", where ?'a = nat] by simp
    ultimately have "unat c + unat (1 :: u32) < 2 ^ LENGTH(32)"
      by simp
    then have u: "unat (c + 1) = unat c + 1"
      by (simp only: unat_add_lem [THEN iffD1] unat_1)
    have ih: "pings (snd (snd (snd (run_loop D n t1 st1 (c + 1))))) =
        (n + unat (c + 1)) div (unat (pingEveryLoop t) + 1)"
      using Suc.IH [of "c + 1" t1 st1] le' by (simp add: b(2))
    show ?thesis
      using False ih b(3) by (simp add: b(1) case_prod_beta pings_append u)
  qed
qed

lemma run_pings:
  "pings (snd (snd (run D n t st))) = n div (unat (pingEveryLoop t) + 1)"
  using run_loop_pings [of 0 t D n st] by (simp add: run_def case_prod_beta)

text \<open>
  Claim C9 has every pass increment the counter and make the probe, with the counter
  back at zero, once the counter has reached the cadence, which is the ping interval
  divided by 10. In the code the pass that brings the counter to the cadence leaves it
  there and makes no probe; the probe is made, and the counter set to zero, by the pass
  after it, which finds the counter at the cadence. So, from a counter of zero, \<open>n\<close>
  passes make one probe for every \<^verbatim>\<open>pingEveryLoop + 1\<close> passes, not for every
  \<^verbatim>\<open>pingEveryLoop\<close>.
\<close>

theorem run_probes_one_pass_late:
  "(loopCounter < pingEveryLoop t \<and> loopCounter + 1 = pingEveryLoop t \<longrightarrow>
      fst (snd (snd (run_body D t st loopCounter))) = pingEveryLoop t \<and>
      pings (snd (snd (snd (run_body D t st loopCounter)))) = 0) \<and>
   (loopCounter = pingEveryLoop t \<longrightarrow>
      fst (snd (snd (run_body D t st loopCounter))) = 0 \<and>
      pings (snd (snd (snd (run_body D t st loopCounter)))) = 1) \<and>
   pings (snd (snd (run D n t st))) = n div (unat (pingEveryLoop t) + 1) \<and>
   pingEveryLoop t = m_pingIntervallms (m_dbEngine t) div 10"
proof -
  obtain t1 st1 evs where b:
    "run_body D t st loopCounter =
       (t1, st1, (if pingEveryLoop t \<le> loopCounter then 0 else loopCounter + 1), evs)"
    "pings evs = (if pingEveryLoop t \<le> loopCounter then 1 else 0)"
    using run_body_step [of D t st loopCounter] by blast
  have p: "pingEveryLoop t = m_pingIntervallms (m_dbEngine t) div 10"
    by (simp add: pingEveryLoop_def loopSleepms_def)
  have late: "fst (snd (snd (run_body D t st loopCounter))) = pingEveryLoop t \<and>
      pings (snd (snd (snd (run_body D t st loopCounter)))) = 0"
    if "loopCounter < pingEveryLoop t" "loopCounter + 1 = pingEveryLoop t"
    using that b by (simp add: not_le [symmetric])
  have due: "fst (snd (snd (run_body D t st loopCounter))) = 0 \<and>
      pings (snd (snd (snd (run_body D t st loopCounter)))) = 1"
    if "loopCounter = pingEveryLoop t"
    using that b by simp
  from late due run_pings [of D n t st] p show ?thesis
    by blast
qed

lemma ex_cadence: "pingEveryLoop ex_thread = 3"
  by (simp add: pingEveryLoop_def loopSleepms_def ex_thread_def)

theorem run_probes_one_pass_late_witness:
  "pingEveryLoop ex_thread = 3 \<and>
   fst (snd (snd (run_body ex_driver ex_thread ex_db 2))) = 3 \<and>
   pings (snd (snd (snd (run_body ex_driver ex_thread ex_db 2)))) = 0 \<and>
   fst (snd (snd (run_body ex_driver ex_thread ex_db 3))) = 0 \<and>
   pings (snd (snd (snd (run_body ex_driver ex_thread ex_db 3)))) = 1 \<and>
   pings (snd (snd (run ex_driver 3 ex_thread ex_db))) = 0 \<and>
   pings (snd (snd (run ex_driver 4 ex_thread ex_db))) = 1"
proof -
  note c = ex_cadence
  from run_probes_one_pass_late [where t = ex_thread and loopCounter = 2 and D = ex_driver
      and st = ex_db and n = 3]
  have a: "fst (snd (snd (run_body ex_driver ex_thread ex_db 2))) = 3 \<and>
      pings (snd (snd (snd (run_body ex_driver ex_thread ex_db 2)))) = 0 \<and>
      pings (snd (snd (run ex_driver 3 ex_thread ex_db))) = 0"
    unfolding c by simp
  from run_probes_one_pass_late [where t = ex_thread and loopCounter = 3 and D = ex_driver
      and st = ex_db and n = 4]
  have b: "fst (snd (snd (run_body ex_driver ex_thread ex_db 3))) = 0 \<and>
      pings (snd (snd (snd (run_body ex_driver ex_thread ex_db 3)))) = 1 \<and>
      pings (snd (snd (run ex_driver 4 ex_thread ex_db))) = 1"
    unfolding c by simp
  from a b c show ?thesis by blast
qed

end
